theory Spec2Isabelle
  imports Main "HOL-Library.Multiset"
begin

section \<open>Strings, file names and the file system\<close>

text \<open>
  \<^verbatim>\<open>QString\<close> is modelled as \<^typ>\<open>string\<close>. The dialog compares strings with
  \<^verbatim>\<open>a.compare(b, Qt::CaseInsensitive) == 0\<close>; the comparison folds the case of both
  operands and orders them character by character. The model folds the ASCII letters
  (every other character is compared as it is) and returns the sign of the comparison.
\<close>

definition toCaseFolded :: "char \<Rightarrow> char" where
  "toCaseFolded c =
     (case map_of (zip ''ABCDEFGHIJKLMNOPQRSTUVWXYZ'' ''abcdefghijklmnopqrstuvwxyz'') c of
        None \<Rightarrow> c
      | Some l \<Rightarrow> l)"

fun compareChars :: "string \<Rightarrow> string \<Rightarrow> int" where
  "compareChars [] [] = 0"
| "compareChars [] (y # ys) = - 1"
| "compareChars (x # xs) [] = 1"
| "compareChars (x # xs) (y # ys) =
     (if (of_char x :: nat) < of_char y then - 1
      else if (of_char y :: nat) < of_char x then 1
      else compareChars xs ys)"

datatype CaseSensitivity = CaseInsensitive | CaseSensitive

definition compare :: "string \<Rightarrow> string \<Rightarrow> CaseSensitivity \<Rightarrow> int" where
  "compare a b cs =
     (case cs of
        CaseSensitive \<Rightarrow> compareChars a b
      | CaseInsensitive \<Rightarrow> compareChars (map toCaseFolded a) (map toCaseFolded b))"

text \<open>
  \<^verbatim>\<open>QFileInfo(path).fileName()\<close>: the name of the file without its directories, that
  is what follows the last \<^verbatim>\<open>/\<close> of the path.
\<close>

definition fileName :: "string \<Rightarrow> string" where
  "fileName path = rev (takeWhile (\<lambda>c. c \<noteq> CHR ''/'') (rev path))"

text \<open>
  The dialog reads the file system in two ways: \<^verbatim>\<open>QFileInfo::exists\<close> and
  \<^verbatim>\<open>QFileInfo::isFile\<close> on a path, and a \<^verbatim>\<open>QDirIterator\<close> with the filter
  \<^verbatim>\<open>Files | Hidden\<close> and no iterator flags over a directory. The file system is a
  parameter of the model that answers these three questions; \<open>dirFiles\<close> is the
  sequence of paths that the calls of \<^verbatim>\<open>scan_it.next()\<close> return.
\<close>

record FileSystem =
  fsExists :: "string \<Rightarrow> bool"
  fsIsFile :: "string \<Rightarrow> bool"
  dirFiles :: "string \<Rightarrow> string list"

section \<open>The dialog's state\<close>

text \<open>
  \<^verbatim>\<open>struct BlockedMod\<close> as the dialog uses it (the fields printed by its
  \<^verbatim>\<open>operator<<\<close>).
\<close>

record BlockedMod =
  name :: string
  websiteUrl :: string
  hash :: string
  matched :: bool
  localPath :: string

text \<open>
  What the dialog does besides changing \<open>mods\<close> is recorded in the order it happens:
  a call of \<^verbatim>\<open>update()\<close> (with the list of mods it renders), a hash task handed to
  \<^verbatim>\<open>hashing_task->addTask\<close> (with the path it hashes), and a call of
  \<^verbatim>\<open>hashing_task->start()\<close>. Debug output is left out.
\<close>

datatype Effect =
  Updated "BlockedMod list"
| HashTaskAdded string
| HashingStarted

record BlockedModsDialog =
  mods :: "BlockedMod list"
  effects :: "Effect list"

definition update :: "BlockedModsDialog \<Rightarrow> BlockedModsDialog" where
  "update d = d\<lparr>effects := effects d @ [Updated (mods d)]\<rparr>"

definition addHashTask :: "string \<Rightarrow> BlockedModsDialog \<Rightarrow> BlockedModsDialog" where
  "addHashTask path d = d\<lparr>effects := effects d @ [HashTaskAdded path]\<rparr>"

definition startHashing :: "BlockedModsDialog \<Rightarrow> BlockedModsDialog" where
  "startHashing d = d\<lparr>effects := effects d @ [HashingStarted]\<rparr>"

text \<open>The paths of the hash tasks among a sequence of effects, in the order they were added.\<close>

fun hashTasks :: "Effect list \<Rightarrow> string list" where
  "hashTasks [] = []"
| "hashTasks (HashTaskAdded path # es) = path # hashTasks es"
| "hashTasks (e # es) = hashTasks es"

section \<open>Matching\<close>

subsection \<open>\<^verbatim>\<open>allModsMatched\<close>\<close>

text \<open>\<^verbatim>\<open>std::all_of(first, last, pred)\<close> over a list.\<close>

fun all_of :: "('a \<Rightarrow> bool) \<Rightarrow> 'a list \<Rightarrow> bool" where
  "all_of pred [] = True"
| "all_of pred (x # xs) = (if pred x then all_of pred xs else False)"

definition allModsMatched :: "BlockedModsDialog \<Rightarrow> bool" where
  "allModsMatched d = all_of (\<lambda>m. matched m) (mods d)"

subsection \<open>\<^verbatim>\<open>checkMatchHash\<close>\<close>

text \<open>
  The loop of \<^verbatim>\<open>checkMatchHash\<close> over \<open>mods\<close>: it returns the list after the loop and
  the flag \<open>match\<close>. A matched entry is passed over (\<^verbatim>\<open>continue\<close>); at the first other entry
  whose hash compares equal the entry is written and the loop ends (\<^verbatim>\<open>break\<close>).
\<close>

fun checkMatchHash_loop :: "string \<Rightarrow> string \<Rightarrow> BlockedMod list \<Rightarrow> BlockedMod list \<times> bool" where
  "checkMatchHash_loop h path [] = ([], False)"
| "checkMatchHash_loop h path (m # rest) =
     (if matched m then
        (let (rest', match) = checkMatchHash_loop h path rest in (m # rest', match))
      else if compare (hash m) h CaseInsensitive = 0 then
        (m\<lparr>matched := True, localPath := path\<rparr> # rest, True)
      else
        (let (rest', match) = checkMatchHash_loop h path rest in (m # rest', match)))"

definition checkMatchHash :: "string \<Rightarrow> string \<Rightarrow> BlockedModsDialog \<Rightarrow> BlockedModsDialog" where
  "checkMatchHash h path d =
     (let (mods', match) = checkMatchHash_loop h path (mods d);
          d' = d\<lparr>mods := mods'\<rparr>
      in if match then update d' else d')"

subsection \<open>\<^verbatim>\<open>checkValidPath\<close> and \<^verbatim>\<open>scanPath\<close>\<close>

fun checkValidPath_loop :: "string \<Rightarrow> BlockedMod list \<Rightarrow> bool" where
  "checkValidPath_loop filename [] = False"
| "checkValidPath_loop filename (m # rest) =
     (if compare (name m) filename CaseInsensitive = 0 then True
      else checkValidPath_loop filename rest)"

definition checkValidPath :: "string \<Rightarrow> BlockedModsDialog \<Rightarrow> bool" where
  "checkValidPath path d = checkValidPath_loop (fileName path) (mods d)"

fun scanPath_loop :: "string list \<Rightarrow> BlockedModsDialog \<Rightarrow> BlockedModsDialog" where
  "scanPath_loop [] d = d"
| "scanPath_loop (file # files) d =
     (if \<not> checkValidPath file d then scanPath_loop files d
      else scanPath_loop files (addHashTask file d))"

definition scanPath :: "FileSystem \<Rightarrow> string \<Rightarrow> BlockedModsDialog \<Rightarrow> BlockedModsDialog" where
  "scanPath fs path d = startHashing (scanPath_loop (dirFiles fs path) d)"

subsection \<open>\<^verbatim>\<open>validateMatchedMods\<close> and \<^verbatim>\<open>directoryChanged\<close>\<close>

fun validateMatchedMods_loop :: "FileSystem \<Rightarrow> BlockedMod list \<Rightarrow> bool \<Rightarrow> BlockedMod list \<times> bool" where
  "validateMatchedMods_loop fs [] changed = ([], changed)"
| "validateMatchedMods_loop fs (m # rest) changed =
     (if matched m then
        (if \<not> fsExists fs (localPath m) \<or> \<not> fsIsFile fs (localPath m) then
           (let (rest', changed') = validateMatchedMods_loop fs rest True
            in (m\<lparr>localPath := '''', matched := False\<rparr> # rest', changed'))
         else
           (let (rest', changed') = validateMatchedMods_loop fs rest changed
            in (m # rest', changed')))
      else
        (let (rest', changed') = validateMatchedMods_loop fs rest changed
         in (m # rest', changed')))"

definition validateMatchedMods :: "FileSystem \<Rightarrow> BlockedModsDialog \<Rightarrow> BlockedModsDialog" where
  "validateMatchedMods fs d =
     (let (mods', changed) = validateMatchedMods_loop fs (mods d) False;
          d' = d\<lparr>mods := mods'\<rparr>
      in if changed then update d' else d')"

definition directoryChanged :: "FileSystem \<Rightarrow> string \<Rightarrow> BlockedModsDialog \<Rightarrow> BlockedModsDialog" where
  "directoryChanged fs path d = scanPath fs path (validateMatchedMods fs d)"

subsection \<open>\<^verbatim>\<open>dropEvent\<close>\<close>

text \<open>
  The dropped URLs are taken as the local file of each (\<^verbatim>\<open>url.toLocalFile()\<close>), in the
  order of \<^verbatim>\<open>e->mimeData()->urls()\<close>.
\<close>

fun dropEvent_loop :: "string list \<Rightarrow> BlockedModsDialog \<Rightarrow> BlockedModsDialog" where
  "dropEvent_loop [] d = d"
| "dropEvent_loop (file # files) d = dropEvent_loop files (addHashTask file d)"

definition dropEvent :: "string list \<Rightarrow> BlockedModsDialog \<Rightarrow> BlockedModsDialog" where
  "dropEvent files d = startHashing (dropEvent_loop files d)"

subsection \<open>The events the dialog handles\<close>

text \<open>
  What can change the dialog after its construction: the completion of a hash task (the
  \<^verbatim>\<open>succeeded\<close> connection made by \<^verbatim>\<open>addHashTask\<close> calls \<^verbatim>\<open>checkMatchHash\<close> with the
  result of the task and its path), a notification of the watcher, a scan of a
  directory and a drop of files; \<^verbatim>\<open>validateMatchedMods\<close> is also taken on its own.
\<close>

datatype Event =
  HashSucceeded string string
| Revalidate FileSystem
| DirectoryChanged FileSystem string
| ScanPath FileSystem string
| DropEvent "string list"

fun handle :: "Event \<Rightarrow> BlockedModsDialog \<Rightarrow> BlockedModsDialog" where
  "handle (HashSucceeded h path) d = checkMatchHash h path d"
| "handle (Revalidate fs) d = validateMatchedMods fs d"
| "handle (DirectoryChanged fs path) d = directoryChanged fs path d"
| "handle (ScanPath fs path) d = scanPath fs path d"
| "handle (DropEvent files) d = dropEvent files d"

fun handleAll :: "Event list \<Rightarrow> BlockedModsDialog \<Rightarrow> BlockedModsDialog" where
  "handleAll [] d = d"
| "handleAll (e # es) d = handleAll es (handle e d)"

section \<open>The hashing task\<close>

text \<open>
  \<^verbatim>\<open>hashing_task\<close> is a \<^verbatim>\<open>ConcurrentTask\<close>, a class of the launcher whose code is not
  part of the dialog's file; the dialog constructs it, hands it hash tasks with
  \<^verbatim>\<open>addTask\<close> and calls \<^verbatim>\<open>start()\<close>. Its behaviour is taken from the specification of
  the bounded task pool. Tasks run concurrently in the launcher; the model is the
  interleaving of the calls of the dialog with the completions of the tasks.
\<close>

text \<open>
  Modelled from the spec: the state of \<^verbatim>\<open>ConcurrentTask\<close> (the bounded task pool): the
  bound on the tasks it runs at a time, the tasks accepted and waiting, the tasks
  running, and the tasks that have run to completion (with success or failure).
\<close>

record 'a ConcurrentTask =
  maxConcurrent :: nat
  queue :: "'a list"
  doing :: "'a list"
  finished :: "'a list"

text \<open>
  Modelled from the spec: the constructor of \<^verbatim>\<open>ConcurrentTask\<close>, given the bound; the new
  pool holds no task.
\<close>

definition newConcurrentTask :: "nat \<Rightarrow> 'a ConcurrentTask" where
  "newConcurrentTask k = \<lparr>maxConcurrent = k, queue = [], doing = [], finished = []\<rparr>"

text \<open>
  Modelled from the spec: \<^verbatim>\<open>ConcurrentTask::addTask\<close>; the pool accepts the task, which
  waits in the queue.
\<close>

definition addTask :: "'a \<Rightarrow> 'a ConcurrentTask \<Rightarrow> 'a ConcurrentTask" where
  "addTask t p = p\<lparr>queue := queue p @ [t]\<rparr>"

text \<open>
  Modelled from the spec: the pool runs up to its bound of tasks at a time and further
  tasks stay queued: waiting tasks are started, first come first, while fewer tasks than
  the bound are running.
\<close>

fun startNext :: "nat \<Rightarrow> 'a list \<Rightarrow> 'a list \<Rightarrow> 'a list \<times> 'a list" where
  "startNext k [] run = ([], run)"
| "startNext k (t # q) run =
     (if length run < k then startNext k q (run @ [t]) else (t # q, run))"

text \<open>
  Modelled from the spec: \<^verbatim>\<open>ConcurrentTask::start\<close>, the operation that begins the
  processing of what has been queued; a task that is running or has completed is not
  run again.
\<close>

definition start :: "'a ConcurrentTask \<Rightarrow> 'a ConcurrentTask" where
  "start p = (let (q, run) = startNext (maxConcurrent p) (queue p) (doing p)
              in p\<lparr>queue := q, doing := run\<rparr>)"

text \<open>
  Modelled from the spec: the completion of a running task of \<^verbatim>\<open>ConcurrentTask\<close> (with
  success or failure, which makes no difference to the other tasks): its slot is free, and
  waiting tasks are started in the free slots.
\<close>

definition taskDone :: "'a \<Rightarrow> 'a ConcurrentTask \<Rightarrow> 'a ConcurrentTask" where
  "taskDone t p =
     (if t \<in> set (doing p)
      then start (p\<lparr>doing := remove1 t (doing p), finished := finished p @ [t]\<rparr>)
      else p)"

text \<open>The constructor of the dialog creates the hashing task with the bound 10.\<close>

definition hashing_task :: "string ConcurrentTask" where
  "hashing_task = newConcurrentTask 10"

text \<open>
  What happens to the pool: a call of \<^verbatim>\<open>addTask\<close>, a call of \<^verbatim>\<open>start\<close>, the completion
  of a task. \<open>hashingCalls\<close> are the calls that the effects of the dialog make, in their
  order.
\<close>

datatype 'a PoolEvent = AddTask 'a | Start | TaskDone 'a

fun poolStep :: "'a PoolEvent \<Rightarrow> 'a ConcurrentTask \<Rightarrow> 'a ConcurrentTask" where
  "poolStep (AddTask t) p = addTask t p"
| "poolStep Start p = start p"
| "poolStep (TaskDone t) p = taskDone t p"

fun poolRun :: "'a PoolEvent list \<Rightarrow> 'a ConcurrentTask \<Rightarrow> 'a ConcurrentTask" where
  "poolRun [] p = p"
| "poolRun (e # es) p = poolRun es (poolStep e p)"

fun hashingCalls :: "Effect list \<Rightarrow> string PoolEvent list" where
  "hashingCalls [] = []"
| "hashingCalls (HashTaskAdded path # es) = AddTask path # hashingCalls es"
| "hashingCalls (HashingStarted # es) = Start # hashingCalls es"
| "hashingCalls (Updated ms # es) = hashingCalls es"

text \<open>The tasks that a sequence of events hands to the pool.\<close>

fun accepted :: "'a PoolEvent list \<Rightarrow> 'a list" where
  "accepted [] = []"
| "accepted (AddTask t # es) = t # accepted es"
| "accepted (e # es) = accepted es"

text \<open>
  The running tasks complete one after the other, at most \<open>n\<close> of them: \<open>pick\<close> chooses,
  among the running tasks, the one that completes next (any order of completion is a
  choice of \<open>pick\<close>).
\<close>

fun drain :: "('a list \<Rightarrow> nat) \<Rightarrow> nat \<Rightarrow> 'a ConcurrentTask \<Rightarrow> 'a ConcurrentTask" where
  "drain pick 0 p = p"
| "drain pick (Suc n) p =
     (if doing p = [] then p
      else drain pick n (taskDone (doing p ! (pick (doing p) mod length (doing p))) p))"

text \<open>
  All the tasks a pool holds, and the pools in which a task waits only when every slot is
  taken.
\<close>

definition tasksOf :: "'a ConcurrentTask \<Rightarrow> 'a multiset" where
  "tasksOf p = mset (queue p) + mset (doing p) + mset (finished p)"

definition filled :: "'a ConcurrentTask \<Rightarrow> bool" where
  "filled p \<longleftrightarrow> (queue p = [] \<or> maxConcurrent p \<le> length (doing p))"

section \<open>The notions the properties are stated with\<close>

text \<open>Two strings are equal up to case when their case-folded forms are the same.\<close>

definition equalCaseInsensitive :: "string \<Rightarrow> string \<Rightarrow> bool" where
  "equalCaseInsensitive a b \<longleftrightarrow> map toCaseFolded a = map toCaseFolded b"

text \<open>
  An entry can take a file of hash \<open>h\<close> when it is not matched yet and its expected
  hash equals \<open>h\<close> up to case; \<open>confirmed\<close> is the entry once it has taken the file at
  \<open>path\<close>.
\<close>

definition candidate :: "string \<Rightarrow> BlockedMod \<Rightarrow> bool" where
  "candidate h m \<longleftrightarrow> \<not> matched m \<and> equalCaseInsensitive (hash m) h"

definition confirmed :: "string \<Rightarrow> BlockedMod \<Rightarrow> BlockedMod" where
  "confirmed path m = m\<lparr>matched := True, localPath := path\<rparr>"

text \<open>
  Position \<open>i\<close> of the list is the first that holds an entry which can take a file of
  hash \<open>h\<close>.
\<close>

definition firstCandidate :: "string \<Rightarrow> BlockedMod list \<Rightarrow> nat \<Rightarrow> bool" where
  "firstCandidate h ms i \<longleftrightarrow>
     i < length ms \<and> candidate h (ms ! i) \<and> (\<forall>m \<in> set (take i ms). \<not> candidate h m)"

text \<open>
  A matched entry is stale when its local path is no longer an existing regular file;
  \<open>unmatch\<close> is the entry sent back to the unmatched state.
\<close>

definition stale :: "FileSystem \<Rightarrow> BlockedMod \<Rightarrow> bool" where
  "stale fs m \<longleftrightarrow> matched m \<and> \<not> (fsExists fs (localPath m) \<and> fsIsFile fs (localPath m))"

definition unmatch :: "BlockedMod \<Rightarrow> BlockedMod" where
  "unmatch m = m\<lparr>localPath := '''', matched := False\<rparr>"

text \<open>The name prefilter: some entry is named like the file, up to case.\<close>

definition nameIsRelevant :: "BlockedMod list \<Rightarrow> string \<Rightarrow> bool" where
  "nameIsRelevant ms file \<longleftrightarrow> (\<exists>m \<in> set ms. equalCaseInsensitive (name m) (fileName file))"

text \<open>The invariant of an entry: it is matched exactly when it has a local path.\<close>

definition matchedIffLocalPath :: "BlockedMod \<Rightarrow> bool" where
  "matchedIffLocalPath m \<longleftrightarrow> (matched m \<longleftrightarrow> localPath m \<noteq> '''')"

fun confirmsWithPath :: "Event \<Rightarrow> bool" where
  "confirmsWithPath (HashSucceeded h path) = (path \<noteq> '''')"
| "confirmsWithPath e = True"

text \<open>The effects that \<open>d'\<close> has recorded since \<open>d\<close>.\<close>

definition newEffects :: "BlockedModsDialog \<Rightarrow> BlockedModsDialog \<Rightarrow> Effect list" where
  "newEffects d d' = drop (length (effects d)) (effects d')"

section \<open>Example data\<close>

definition fooJar :: BlockedMod where
  "fooJar = \<lparr>name = ''Foo.jar'', websiteUrl = ''https://example.org/foo'', hash = ''abc123'',
             matched = False, localPath = ''''\<rparr>"

definition dupA :: BlockedMod where
  "dupA = \<lparr>name = ''a.jar'', websiteUrl = ''https://example.org/a'', hash = ''dup1'',
           matched = False, localPath = ''''\<rparr>"

definition dupB :: BlockedMod where
  "dupB = \<lparr>name = ''b.jar'', websiteUrl = ''https://example.org/b'', hash = ''DUP1'',
           matched = False, localPath = ''''\<rparr>"

definition notesTxt :: BlockedMod where
  "notesTxt = \<lparr>name = ''Notes.TXT'', websiteUrl = ''https://example.org/notes'', hash = ''0a1b'',
            matched = False, localPath = ''''\<rparr>"

definition fooFound :: BlockedMod where
  "fooFound = fooJar\<lparr>matched := True, localPath := ''/dl/Foo.jar''\<rparr>"

definition dialogOf :: "BlockedMod list \<Rightarrow> BlockedModsDialog" where
  "dialogOf ms = \<lparr>mods = ms, effects = []\<rparr>"

text \<open>
  A file system whose directory \<^verbatim>\<open>/dl\<close> holds the regular files \<^verbatim>\<open>/dl/Foo.jar\<close> and
  \<^verbatim>\<open>/dl/notes.txt\<close>, and the same directory once \<^verbatim>\<open>/dl/Foo.jar\<close> has been deleted.
\<close>

definition isIn :: "string list \<Rightarrow> string \<Rightarrow> bool" where
  "isIn files path \<longleftrightarrow> path \<in> set files"

definition listing :: "string \<Rightarrow> string list \<Rightarrow> string \<Rightarrow> string list" where
  "listing dir files path = (if path = dir then files else [])"

definition downloads :: FileSystem where
  "downloads = \<lparr>fsExists = isIn [''/dl'', ''/dl/Foo.jar'', ''/dl/notes.txt''],
                 fsIsFile = isIn [''/dl/Foo.jar'', ''/dl/notes.txt''],
                 dirFiles = listing ''/dl'' [''/dl/Foo.jar'', ''/dl/notes.txt'']\<rparr>"

definition downloadsAfterDelete :: FileSystem where
  "downloadsAfterDelete = \<lparr>fsExists = isIn [''/dl'', ''/dl/notes.txt''],
                            fsIsFile = isIn [''/dl/notes.txt''],
                            dirFiles = listing ''/dl'' [''/dl/notes.txt'']\<rparr>"

text \<open>Twelve files dropped on a dialog, and the completion that takes the first running task.\<close>

definition twelveFiles :: "string list" where
  "twelveFiles = [''/d/01'', ''/d/02'', ''/d/03'', ''/d/04'', ''/d/05'', ''/d/06'',
                  ''/d/07'', ''/d/08'', ''/d/09'', ''/d/10'', ''/d/11'', ''/d/12'']"

definition firstRunning :: "string list \<Rightarrow> nat" where
  "firstRunning run = 0"

section \<open>Properties\<close>

subsection \<open>Comparison of strings\<close>

lemma compareChars_zero_iff: "compareChars xs ys = 0 \<longleftrightarrow> xs = ys"
  by (induction xs ys rule: compareChars.induct) auto

lemma compare_zero_iff: "compare a b CaseInsensitive = 0 \<longleftrightarrow> equalCaseInsensitive a b"
  by (simp add: compare_def equalCaseInsensitive_def compareChars_zero_iff)

subsection \<open>\<^verbatim>\<open>std::all_of\<close>\<close>

lemma all_of_iff: "all_of pred xs \<longleftrightarrow> (\<forall>x \<in> set xs. pred x)"
  by (induction xs) auto

subsection \<open>The effects recorded\<close>

lemma hashTasks_append: "hashTasks (es @ es') = hashTasks es @ hashTasks es'"
  by (induction es rule: hashTasks.induct) auto

lemma hashTasks_map_HashTaskAdded: "hashTasks (map HashTaskAdded ps) = ps"
  by (induction ps) auto

lemma mods_addHashTask: "mods (addHashTask p d) = mods d"
  by (simp add: addHashTask_def)

subsection \<open>The loop of \<^verbatim>\<open>checkMatchHash\<close>\<close>

lemma loop_no_candidate:
  "\<forall>x \<in> set ms. \<not> candidate h x \<Longrightarrow> checkMatchHash_loop h path ms = (ms, False)"
  by (induction ms) (auto simp: candidate_def compare_zero_iff)

lemma loop_first_candidate:
  "\<forall>x \<in> set pre. \<not> candidate h x \<Longrightarrow> candidate h m \<Longrightarrow>
   checkMatchHash_loop h path (pre @ m # post) = (pre @ confirmed path m # post, True)"
  by (induction pre) (auto simp: candidate_def compare_zero_iff confirmed_def)

lemma mods_checkMatchHash:
  "mods (checkMatchHash h path d) = fst (checkMatchHash_loop h path (mods d))"
  by (simp add: checkMatchHash_def update_def Let_def split: prod.splits)

lemma not_candidate_confirmed: "\<not> candidate h (confirmed path m)"
  by (simp add: candidate_def confirmed_def)

subsection \<open>The loop of \<^verbatim>\<open>validateMatchedMods\<close>\<close>

lemma validate_loop:
  "validateMatchedMods_loop fs ms c =
     (map (\<lambda>m. if stale fs m then unmatch m else m) ms, c \<or> (\<exists>m \<in> set ms. stale fs m))"
  by (induction ms arbitrary: c) (auto simp: stale_def unmatch_def)

lemma mods_validateMatchedMods:
  "mods (validateMatchedMods fs d) = map (\<lambda>m. if stale fs m then unmatch m else m) (mods d)"
  by (simp add: validateMatchedMods_def validate_loop update_def Let_def)

lemma effects_validateMatchedMods:
  "effects (validateMatchedMods fs d) =
     (if \<exists>m \<in> set (mods d). stale fs m
      then effects d @ [Updated (map (\<lambda>m. if stale fs m then unmatch m else m) (mods d))]
      else effects d)"
  by (simp add: validateMatchedMods_def validate_loop update_def Let_def)

subsection \<open>The loops of \<^verbatim>\<open>checkValidPath\<close>, \<^verbatim>\<open>scanPath\<close> and \<^verbatim>\<open>dropEvent\<close>\<close>

lemma checkValidPath_loop_iff:
  "checkValidPath_loop fn ms \<longleftrightarrow> (\<exists>m \<in> set ms. equalCaseInsensitive (name m) fn)"
  by (induction ms) (auto simp: compare_zero_iff)

lemma checkValidPath_iff: "checkValidPath file d \<longleftrightarrow> nameIsRelevant (mods d) file"
  by (simp add: checkValidPath_def nameIsRelevant_def checkValidPath_loop_iff)

lemma mods_scanPath_loop: "mods (scanPath_loop files d) = mods d"
  by (induction files arbitrary: d) (auto simp: mods_addHashTask)

lemma effects_scanPath_loop:
  "effects (scanPath_loop files d) =
     effects d @ map HashTaskAdded (filter (nameIsRelevant (mods d)) files)"
  by (induction files arbitrary: d) (auto simp: checkValidPath_iff addHashTask_def)

lemma effects_scanPath:
  "effects (scanPath fs path d) =
     effects d @ map HashTaskAdded (filter (nameIsRelevant (mods d)) (dirFiles fs path))
       @ [HashingStarted]"
  by (simp add: scanPath_def startHashing_def effects_scanPath_loop)

lemma mods_scanPath: "mods (scanPath fs path d) = mods d"
  by (simp add: scanPath_def startHashing_def mods_scanPath_loop)

lemma effects_dropEvent_loop:
  "effects (dropEvent_loop files d) = effects d @ map HashTaskAdded files"
  by (induction files arbitrary: d) (auto simp: addHashTask_def)

lemma mods_dropEvent_loop: "mods (dropEvent_loop files d) = mods d"
  by (induction files arbitrary: d) (auto simp: mods_addHashTask)

lemma newEffects_append: "effects d' = effects d @ es \<Longrightarrow> newEffects d d' = es"
  by (simp add: newEffects_def)

subsection \<open>The invariant of the entries\<close>

lemma inv_checkMatchHash_loop:
  "\<forall>m \<in> set ms. matchedIffLocalPath m \<Longrightarrow> path \<noteq> '''' \<Longrightarrow>
   \<forall>m \<in> set (fst (checkMatchHash_loop h path ms)). matchedIffLocalPath m"
  by (induction ms) (auto simp: matchedIffLocalPath_def split: prod.splits)

lemma inv_checkMatchHash:
  "\<forall>m \<in> set (mods d). matchedIffLocalPath m \<Longrightarrow> path \<noteq> '''' \<Longrightarrow>
   \<forall>m \<in> set (mods (checkMatchHash h path d)). matchedIffLocalPath m"
  using inv_checkMatchHash_loop [of "mods d" path h] by (simp add: mods_checkMatchHash)

lemma inv_validateMatchedMods:
  "\<forall>m \<in> set (mods d). matchedIffLocalPath m \<Longrightarrow>
   \<forall>m \<in> set (mods (validateMatchedMods fs d)). matchedIffLocalPath m"
  by (auto simp: mods_validateMatchedMods matchedIffLocalPath_def unmatch_def)

lemma mods_dropEvent: "mods (dropEvent files d) = mods d"
  by (simp add: dropEvent_def startHashing_def mods_dropEvent_loop)

lemma inv_handle:
  "\<forall>m \<in> set (mods d). matchedIffLocalPath m \<Longrightarrow> confirmsWithPath e \<Longrightarrow>
   \<forall>m \<in> set (mods (handle e d)). matchedIffLocalPath m"
proof (cases e)
  case (HashSucceeded h path)
  assume "\<forall>m \<in> set (mods d). matchedIffLocalPath m" "confirmsWithPath e"
  with HashSucceeded show ?thesis using inv_checkMatchHash [of d path h] by simp
next
  case (Revalidate fs)
  assume "\<forall>m \<in> set (mods d). matchedIffLocalPath m"
  with Revalidate show ?thesis using inv_validateMatchedMods [of d fs] by simp
next
  case (DirectoryChanged fs path)
  assume "\<forall>m \<in> set (mods d). matchedIffLocalPath m"
  then have "\<forall>m \<in> set (mods (validateMatchedMods fs d)). matchedIffLocalPath m"
    by (rule inv_validateMatchedMods)
  with DirectoryChanged show ?thesis by (simp add: directoryChanged_def mods_scanPath)
next
  case (ScanPath fs path)
  assume "\<forall>m \<in> set (mods d). matchedIffLocalPath m"
  with ScanPath show ?thesis by (simp add: mods_scanPath)
next
  case (DropEvent files)
  assume "\<forall>m \<in> set (mods d). matchedIffLocalPath m"
  with DropEvent show ?thesis by (simp add: mods_dropEvent)
qed

lemma inv_handleAll:
  "\<forall>m \<in> set (mods d). matchedIffLocalPath m \<Longrightarrow> \<forall>e \<in> set es. confirmsWithPath e \<Longrightarrow>
   \<forall>m \<in> set (mods (handleAll es d)). matchedIffLocalPath m"
proof (induction es arbitrary: d)
  case Nil
  then show ?case by simp
next
  case (Cons e es)
  from Cons.prems have "\<forall>m \<in> set (mods (handle e d)). matchedIffLocalPath m"
    using inv_handle [of d e] by simp
  with Cons.prems Cons.IH [of "handle e d"] show ?case by simp
qed

subsection \<open>Positions in the loop of \<^verbatim>\<open>checkMatchHash\<close>\<close>

lemma length_checkMatchHash_loop: "length (fst (checkMatchHash_loop h path ms)) = length ms"
  by (induction ms) (auto split: prod.splits)

lemma firstCandidate_Cons:
  "firstCandidate h (m # ms) i \<longleftrightarrow>
     (if candidate h m then i = 0 else (\<exists>k. i = Suc k \<and> firstCandidate h ms k))"
  by (cases i) (auto simp: firstCandidate_def)

lemma nth_checkMatchHash_loop:
  "i < length ms \<Longrightarrow>
   fst (checkMatchHash_loop h path ms) ! i =
     (if firstCandidate h ms i then confirmed path (ms ! i) else ms ! i)"
proof (induction ms arbitrary: i)
  case Nil
  then show ?case by simp
next
  case (Cons m ms)
  show ?case
  proof (cases "candidate h m")
    case True
    then have "checkMatchHash_loop h path (m # ms) = (confirmed path m # ms, True)"
      by (simp add: candidate_def compare_zero_iff confirmed_def)
    with True show ?thesis
      by (cases i) (simp_all add: firstCandidate_Cons)
  next
    case False
    then have "fst (checkMatchHash_loop h path (m # ms)) = m # fst (checkMatchHash_loop h path ms)"
      by (auto simp: candidate_def compare_zero_iff split: prod.splits)
    with False Cons show ?thesis
      by (cases i) (simp_all add: firstCandidate_Cons)
  qed
qed

lemma firstCandidate_unique: "firstCandidate h ms i \<Longrightarrow> firstCandidate h ms j \<Longrightarrow> i = j"
proof (induction ms arbitrary: i j)
  case Nil
  then show ?case by (simp add: firstCandidate_def)
next
  case (Cons m ms)
  then show ?case by (auto simp: firstCandidate_Cons split: if_splits)
qed

lemma snd_checkMatchHash_loop:
  "snd (checkMatchHash_loop h path ms) \<longleftrightarrow> (\<exists>m \<in> set ms. candidate h m)"
  by (induction ms) (auto simp: candidate_def compare_zero_iff split: prod.splits)

subsection \<open>The hashing task\<close>

lemma startNext_mset:
  "mset (fst (startNext k q run)) + mset (snd (startNext k q run)) = mset q + mset run"
  by (induction k q run rule: startNext.induct) auto

lemma startNext_length:
  "length (fst (startNext k q run)) + length (snd (startNext k q run)) = length q + length run"
  by (induction k q run rule: startNext.induct) auto

lemma startNext_bound:
  "length run \<le> k \<Longrightarrow> length (snd (startNext k q run)) \<le> k"
  by (induction k q run rule: startNext.induct) auto

lemma startNext_filled:
  "fst (startNext k q run) = [] \<or> k \<le> length (snd (startNext k q run))"
  by (induction k q run rule: startNext.induct) auto

lemma maxConcurrent_start [simp]: "maxConcurrent (start p) = maxConcurrent p"
  by (simp add: start_def split: prod.splits)

lemma finished_start [simp]: "finished (start p) = finished p"
  by (simp add: start_def split: prod.splits)

lemma queue_start: "queue (start p) = fst (startNext (maxConcurrent p) (queue p) (doing p))"
  by (simp add: start_def split: prod.splits)

lemma doing_start: "doing (start p) = snd (startNext (maxConcurrent p) (queue p) (doing p))"
  by (simp add: start_def split: prod.splits)

lemma tasksOf_start: "tasksOf (start p) = tasksOf p"
  using startNext_mset [of "maxConcurrent p" "queue p" "doing p"]
  by (simp add: tasksOf_def queue_start doing_start)

lemma filled_start: "filled (start p)"
  using startNext_filled [of "maxConcurrent p" "queue p" "doing p"]
  by (simp add: filled_def queue_start doing_start)

lemma bound_start: "length (doing p) \<le> maxConcurrent p \<Longrightarrow> length (doing (start p)) \<le> maxConcurrent p"
  by (simp add: doing_start startNext_bound)

lemma load_start: "length (queue (start p)) + length (doing (start p)) = length (queue p) + length (doing p)"
  by (simp add: queue_start doing_start startNext_length)

lemma maxConcurrent_taskDone [simp]: "maxConcurrent (taskDone t p) = maxConcurrent p"
  by (simp add: taskDone_def)

lemma tasksOf_taskDone: "tasksOf (taskDone t p) = tasksOf p"
  by (simp add: taskDone_def tasksOf_start) (simp add: tasksOf_def)

lemma bound_taskDone:
  "length (doing p) \<le> maxConcurrent p \<Longrightarrow> length (doing (taskDone t p)) \<le> maxConcurrent p"
proof (cases "t \<in> set (doing p)")
  case True
  assume "length (doing p) \<le> maxConcurrent p"
  with True have "length (remove1 t (doing p)) \<le> maxConcurrent p"
    by (simp add: length_remove1)
  with True show ?thesis
    using bound_start [of "p\<lparr>doing := remove1 t (doing p), finished := finished p @ [t]\<rparr>"]
    by (simp add: taskDone_def)
next
  case False
  assume "length (doing p) \<le> maxConcurrent p"
  with False show ?thesis by (simp add: taskDone_def)
qed

lemma load_taskDone:
  assumes "t \<in> set (doing p)"
  shows "Suc (length (queue (taskDone t p)) + length (doing (taskDone t p))) =
         length (queue p) + length (doing p)"
proof -
  from assms have "0 < length (doing p)" by (cases "doing p") auto
  with assms have "Suc (length (remove1 t (doing p))) = length (doing p)"
    by (simp add: length_remove1)
  with assms show ?thesis
    using load_start [of "p\<lparr>doing := remove1 t (doing p), finished := finished p @ [t]\<rparr>"]
    by (simp add: taskDone_def)
qed

lemma filled_taskDone: "filled p \<Longrightarrow> filled (taskDone t p)"
  by (simp add: taskDone_def filled_start)

lemma maxConcurrent_poolStep [simp]: "maxConcurrent (poolStep e p) = maxConcurrent p"
  by (cases e) (simp_all add: addTask_def)

lemma bound_poolStep:
  "length (doing p) \<le> maxConcurrent p \<Longrightarrow> length (doing (poolStep e p)) \<le> maxConcurrent p"
  by (cases e) (simp_all add: addTask_def bound_start bound_taskDone)

lemma maxConcurrent_poolRun [simp]: "maxConcurrent (poolRun es p) = maxConcurrent p"
  by (induction es arbitrary: p) simp_all

lemma bound_poolRun:
  "length (doing p) \<le> maxConcurrent p \<Longrightarrow> length (doing (poolRun es p)) \<le> maxConcurrent p"
proof (induction es arbitrary: p)
  case Nil
  then show ?case by simp
next
  case (Cons e es)
  from Cons.prems have "length (doing (poolStep e p)) \<le> maxConcurrent (poolStep e p)"
    by (simp add: bound_poolStep)
  from Cons.IH [OF this] show ?case by simp
qed

lemma tasksOf_poolStep:
  "tasksOf (poolStep e p) = tasksOf p + mset (accepted [e])"
  by (cases e) (simp_all add: tasksOf_start tasksOf_taskDone, simp add: tasksOf_def addTask_def)

lemma accepted_Cons: "mset (accepted (e # es)) = mset (accepted [e]) + mset (accepted es)"
  by (cases e) simp_all

lemma tasksOf_poolRun: "tasksOf (poolRun es p) = tasksOf p + mset (accepted es)"
proof (induction es arbitrary: p)
  case Nil
  then show ?case by simp
next
  case (Cons e es)
  have "tasksOf (poolRun (e # es) p) = tasksOf (poolStep e p) + mset (accepted es)"
    by (simp add: Cons.IH)
  also have "\<dots> = tasksOf p + mset (accepted (e # es))"
    by (simp add: tasksOf_poolStep accepted_Cons [of e es])
  finally show ?case .
qed

lemma drain_all:
  "filled p \<Longrightarrow> 0 < maxConcurrent p \<Longrightarrow> length (queue p) + length (doing p) \<le> n \<Longrightarrow>
   queue (drain pick n p) = [] \<and> doing (drain pick n p) = [] \<and>
   mset (finished (drain pick n p)) = tasksOf p"
proof (induction n arbitrary: p)
  case 0
  then show ?case by (simp add: tasksOf_def)
next
  case (Suc n)
  show ?case
  proof (cases "doing p = []")
    case True
    with Suc.prems have "queue p = []" by (auto simp: filled_def)
    with True show ?thesis by (simp add: tasksOf_def)
  next
    case False
    let ?t = "doing p ! (pick (doing p) mod length (doing p))"
    from False have t: "?t \<in> set (doing p)" by simp
    have "filled (taskDone ?t p)" using Suc.prems(1) by (rule filled_taskDone)
    moreover have "0 < maxConcurrent (taskDone ?t p)" using Suc.prems(2) by simp
    moreover have "length (queue (taskDone ?t p)) + length (doing (taskDone ?t p)) \<le> n"
      using load_taskDone [OF t] Suc.prems(3) by simp
    ultimately have "queue (drain pick n (taskDone ?t p)) = [] \<and>
        doing (drain pick n (taskDone ?t p)) = [] \<and>
        mset (finished (drain pick n (taskDone ?t p))) = tasksOf (taskDone ?t p)"
      by (rule Suc.IH)
    with False show ?thesis by (simp add: tasksOf_taskDone)
  qed
qed

subsection \<open>The claims\<close>

lemmas fs_defs = downloads_def downloadsAfterDelete_def isIn_def listing_def stale_def unmatch_def

lemmas ex_defs = dialogOf_def fooFound_def fooJar_def dupA_def dupB_def notesTxt_def candidate_def
  equalCaseInsensitive_def toCaseFolded_def confirmed_def

text \<open>
  C7. \<^verbatim>\<open>allModsMatched\<close> holds exactly when every entry of the list has \<open>matched\<close> set, and
  it holds when the list is empty.
\<close>

theorem allModsMatched_iff:
  "(allModsMatched d \<longleftrightarrow> (\<forall>m \<in> set (mods d). matched m)) \<and>
   (mods d = [] \<longrightarrow> allModsMatched d)"
  by (simp add: allModsMatched_def all_of_iff)

theorem allModsMatched_iff_witness:
  "allModsMatched (dialogOf [fooFound]) \<and> \<not> allModsMatched (dialogOf [fooFound, dupA]) \<and>
   allModsMatched (dialogOf [])"
  using allModsMatched_iff [of "dialogOf [fooFound]"] allModsMatched_iff [of "dialogOf [fooFound, dupA]"]
    allModsMatched_iff [of "dialogOf []"]
  by (simp add: dialogOf_def fooFound_def fooJar_def dupA_def)

text \<open>
  C1. \<^verbatim>\<open>checkMatchHash\<close> goes through the entries in the order of the list and passes
  over the matched ones: when no unmatched entry has the hash (up to case) the list stays
  as it is; otherwise the first such entry, and only it, becomes matched with the given
  path. So with two unmatched entries of the same hash, the first call takes the first of
  them and a second call with the same hash takes the second; with one such entry only,
  the second call changes nothing.
\<close>

theorem checkMatchHash_first_unmatched:
  "((\<forall>x \<in> set (mods d). \<not> candidate h x) \<longrightarrow> mods (checkMatchHash h path d) = mods d) \<and>
   (mods d = pre @ m # post \<and> (\<forall>x \<in> set pre. \<not> candidate h x) \<and> candidate h m \<longrightarrow>
      mods (checkMatchHash h path d) = pre @ confirmed path m # post) \<and>
   (mods d = pre @ m # mid @ m2 # post \<and> (\<forall>x \<in> set pre. \<not> candidate h x) \<and> candidate h m \<and>
    (\<forall>x \<in> set mid. \<not> candidate h x) \<and> candidate h m2 \<longrightarrow>
      mods (checkMatchHash h path2 (checkMatchHash h path d)) =
        pre @ confirmed path m # mid @ confirmed path2 m2 # post) \<and>
   (mods d = pre @ m # post \<and> (\<forall>x \<in> set pre. \<not> candidate h x) \<and> candidate h m \<and>
    (\<forall>x \<in> set post. \<not> candidate h x) \<longrightarrow>
      checkMatchHash h path2 (checkMatchHash h path d) = checkMatchHash h path d)"
proof (intro conjI impI)
  assume "\<forall>x \<in> set (mods d). \<not> candidate h x"
  then show "mods (checkMatchHash h path d) = mods d"
    by (simp add: mods_checkMatchHash loop_no_candidate)
next
  assume "mods d = pre @ m # post \<and> (\<forall>x \<in> set pre. \<not> candidate h x) \<and> candidate h m"
  then show "mods (checkMatchHash h path d) = pre @ confirmed path m # post"
    by (simp add: mods_checkMatchHash loop_first_candidate)
next
  assume a: "mods d = pre @ m # mid @ m2 # post \<and> (\<forall>x \<in> set pre. \<not> candidate h x) \<and> candidate h m \<and>
    (\<forall>x \<in> set mid. \<not> candidate h x) \<and> candidate h m2"
  then have 1: "mods (checkMatchHash h path d) = pre @ confirmed path m # mid @ m2 # post"
    by (simp add: mods_checkMatchHash loop_first_candidate)
  from a have "\<forall>x \<in> set (pre @ confirmed path m # mid). \<not> candidate h x"
    by (auto simp: not_candidate_confirmed)
  from loop_first_candidate [OF this, of m2 path2 post] a
  have "checkMatchHash_loop h path2 ((pre @ confirmed path m # mid) @ m2 # post)
     = ((pre @ confirmed path m # mid) @ confirmed path2 m2 # post, True)" by simp
  with 1 show "mods (checkMatchHash h path2 (checkMatchHash h path d)) =
        pre @ confirmed path m # mid @ confirmed path2 m2 # post"
    by (simp add: mods_checkMatchHash)
next
  assume a: "mods d = pre @ m # post \<and> (\<forall>x \<in> set pre. \<not> candidate h x) \<and> candidate h m \<and>
    (\<forall>x \<in> set post. \<not> candidate h x)"
  then have 1: "mods (checkMatchHash h path d) = pre @ confirmed path m # post"
    by (simp add: mods_checkMatchHash loop_first_candidate)
  from a have "\<forall>x \<in> set (pre @ confirmed path m # post). \<not> candidate h x"
    by (auto simp: not_candidate_confirmed)
  with 1 have "checkMatchHash_loop h path2 (mods (checkMatchHash h path d)) = (mods (checkMatchHash h path d), False)"
    by (simp add: loop_no_candidate)
  then show "checkMatchHash h path2 (checkMatchHash h path d) = checkMatchHash h path d"
    by (simp add: checkMatchHash_def [of h path2])
qed

theorem checkMatchHash_first_unmatched_witness:
  "mods (checkMatchHash ''zzz999'' ''/dl/Foo.jar'' (dialogOf [fooFound, dupA, dupB])) = [fooFound, dupA, dupB] \<and>
   mods (checkMatchHash ''dup1'' ''/dl/x.jar'' (dialogOf [fooFound, dupA, dupB])) =
     [fooFound, confirmed ''/dl/x.jar'' dupA, dupB] \<and>
   mods (checkMatchHash ''dup1'' ''/dl/y.jar'' (checkMatchHash ''dup1'' ''/dl/x.jar'' (dialogOf [fooFound, dupA, dupB]))) =
     [fooFound, confirmed ''/dl/x.jar'' dupA, confirmed ''/dl/y.jar'' dupB] \<and>
   checkMatchHash ''dup1'' ''/dl/y.jar'' (checkMatchHash ''dup1'' ''/dl/x.jar'' (dialogOf [fooFound, dupA, fooJar])) =
     checkMatchHash ''dup1'' ''/dl/x.jar'' (dialogOf [fooFound, dupA, fooJar])"
proof -
  have n: "\<forall>x \<in> set (mods (dialogOf [fooFound, dupA, dupB])). \<not> candidate ''zzz999'' x"
    by (simp add: ex_defs)
  have p: "mods (dialogOf [fooFound, dupA, dupB]) = [fooFound] @ dupA # [] @ dupB # []"
    by (simp add: dialogOf_def)
  have q: "mods (dialogOf [fooFound, dupA, dupB]) = [fooFound] @ dupA # [dupB]"
    by (simp add: dialogOf_def)
  have r: "mods (dialogOf [fooFound, dupA, fooJar]) = [fooFound] @ dupA # [fooJar]"
    by (simp add: dialogOf_def)
  have c: "(\<forall>x \<in> set [fooFound]. \<not> candidate ''dup1'' x) \<and> candidate ''dup1'' dupA \<and>
           (\<forall>x \<in> set []. \<not> candidate ''dup1'' x) \<and> candidate ''dup1'' dupB \<and>
           (\<forall>x \<in> set [fooJar]. \<not> candidate ''dup1'' x)"
    by (simp add: ex_defs)
  show ?thesis
    using checkMatchHash_first_unmatched [where d = "dialogOf [fooFound, dupA, dupB]" and h = "''zzz999''" and path = "''/dl/Foo.jar''"] n
      checkMatchHash_first_unmatched [where d = "dialogOf [fooFound, dupA, dupB]" and h = "''dup1''" and pre = "[fooFound]"
        and m = dupA and post = "[dupB]" and path = "''/dl/x.jar''"]
      checkMatchHash_first_unmatched [where d = "dialogOf [fooFound, dupA, dupB]" and h = "''dup1''" and pre = "[fooFound]"
        and m = dupA and mid = "[]" and ?m2.0 = dupB and post = "[]" and path = "''/dl/x.jar''" and ?path2.0 = "''/dl/y.jar''"]
      checkMatchHash_first_unmatched [where d = "dialogOf [fooFound, dupA, fooJar]" and h = "''dup1''" and pre = "[fooFound]"
        and m = dupA and post = "[fooJar]" and path = "''/dl/x.jar''" and ?path2.0 = "''/dl/y.jar''"]
      p q r c
    by simp
qed

text \<open>
  C2. \<^verbatim>\<open>validateMatchedMods\<close> sends back to the unmatched state, with an empty local
  path, exactly the entries that are matched and whose local path is not an existing
  regular file, and leaves every other entry as it is; it calls \<^verbatim>\<open>update()\<close> (once, on
  the list after the resets) exactly when there was such an entry.
\<close>

theorem validateMatchedMods_resets_stale:
  "mods (validateMatchedMods fs d) = map (\<lambda>m. if stale fs m then unmatch m else m) (mods d) \<and>
   effects (validateMatchedMods fs d) =
     (if \<exists>m \<in> set (mods d). stale fs m
      then effects d @ [Updated (mods (validateMatchedMods fs d))]
      else effects d)"
  by (simp add: effects_validateMatchedMods mods_validateMatchedMods)

theorem validateMatchedMods_resets_stale_witness:
  "validateMatchedMods downloadsAfterDelete (dialogOf [fooFound, dupA]) =
     \<lparr>mods = [fooJar, dupA], effects = [Updated [fooJar, dupA]]\<rparr> \<and>
   validateMatchedMods downloads (dialogOf [fooFound, dupA]) = dialogOf [fooFound, dupA]"
proof -
  have "stale downloadsAfterDelete fooFound \<and> \<not> stale downloadsAfterDelete dupA \<and> unmatch fooFound = fooJar
    \<and> \<not> stale downloads fooFound \<and> \<not> stale downloads dupA"
    by (simp add: ex_defs fs_defs)
  then show ?thesis
    using validateMatchedMods_resets_stale [of downloadsAfterDelete "dialogOf [fooFound, dupA]"]
      validateMatchedMods_resets_stale [of downloads "dialogOf [fooFound, dupA]"]
    by (simp add: dialogOf_def BlockedModsDialog.equality)
qed

text \<open>
  C3. What a scan of a directory adds to the hashing task: a hash task for each enumerated
  file whose file name equals the name of some entry up to case, in the order of the
  enumeration, and nothing else. So a file is submitted for hashing by the scan exactly
  when it is enumerated and some entry is named like it; a file named like no entry is
  never submitted.
\<close>

theorem scanPath_hashes_relevant_names:
  "newEffects d (scanPath fs path d) =
     map HashTaskAdded
       (filter (\<lambda>file. \<exists>m \<in> set (mods d). equalCaseInsensitive (name m) (fileName file))
          (dirFiles fs path))
     @ [HashingStarted] \<and>
   (\<forall>file. file \<in> set (hashTasks (newEffects d (scanPath fs path d))) \<longleftrightarrow>
      file \<in> set (dirFiles fs path) \<and>
      (\<exists>m \<in> set (mods d). equalCaseInsensitive (name m) (fileName file)))"
proof -
  have e: "newEffects d (scanPath fs path d) =
     map HashTaskAdded (filter (nameIsRelevant (mods d)) (dirFiles fs path)) @ [HashingStarted]"
    by (rule newEffects_append) (simp add: effects_scanPath)
  then have h: "hashTasks (newEffects d (scanPath fs path d)) =
     filter (nameIsRelevant (mods d)) (dirFiles fs path)"
    by (simp add: hashTasks_append hashTasks_map_HashTaskAdded)
  have n: "nameIsRelevant (mods d) =
     (\<lambda>file. \<exists>m \<in> set (mods d). equalCaseInsensitive (name m) (fileName file))"
    by (simp add: fun_eq_iff nameIsRelevant_def)
  show ?thesis
    unfolding h using e by (simp add: n)
qed

theorem scanPath_hashes_relevant_names_witness:
  "''/dl/Foo.jar'' \<in> set (hashTasks (newEffects (dialogOf [fooJar, dupA])
      (scanPath downloads ''/dl'' (dialogOf [fooJar, dupA])))) \<and>
   ''/dl/notes.txt'' \<notin> set (hashTasks (newEffects (dialogOf [fooJar, dupA])
      (scanPath downloads ''/dl'' (dialogOf [fooJar, dupA]))))"
proof -
  have a: "''/dl/Foo.jar'' \<in> set (dirFiles downloads ''/dl'') \<and>
      (\<exists>m \<in> set (mods (dialogOf [fooJar, dupA])).
         equalCaseInsensitive (name m) (fileName ''/dl/Foo.jar''))"
    by (simp add: ex_defs fs_defs fileName_def)
  have b: "\<not> (\<exists>m \<in> set (mods (dialogOf [fooJar, dupA])).
         equalCaseInsensitive (name m) (fileName ''/dl/notes.txt''))"
    by (simp add: ex_defs fileName_def)
  note t = scanPath_hashes_relevant_names [of "dialogOf [fooJar, dupA]" downloads "''/dl''",
      THEN conjunct2, THEN spec]
  from t [of "''/dl/Foo.jar''"] t [of "''/dl/notes.txt''"] a b show ?thesis
    by blast
qed

text \<open>
  C4 does not hold as it is written. The only entry is matched and named like the file
  \<^verbatim>\<open>/dl/Foo.jar\<close>, and the scan of \<^verbatim>\<open>/dl\<close> submits that file for hashing all the same:
  \<^verbatim>\<open>checkValidPath\<close> compares names and never reads \<open>matched\<close>.
\<close>

theorem scanPath_hashes_matched_name:
  "matched fooFound \<and>
   compare (name fooFound) (fileName ''/dl/Foo.jar'') CaseInsensitive = 0 \<and>
   dirFiles downloads ''/dl'' = [''/dl/Foo.jar'', ''/dl/notes.txt''] \<and>
   effects (scanPath downloads ''/dl'' \<lparr>mods = [fooFound], effects = []\<rparr>) =
     [HashTaskAdded ''/dl/Foo.jar'', HashingStarted]"
  by (simp add: fooFound_def fooJar_def compare_def toCaseFolded_def fileName_def downloads_def
      listing_def scanPath_def startHashing_def checkValidPath_def addHashTask_def)

text \<open>
  C4, amended. A scan of a directory submits a hash task for an enumerated file whose file
  name equals the name of some entry up to case also when every entry named like it is
  already matched.
\<close>

theorem scanPath_ignores_matched:
  "file \<in> set (dirFiles fs path) \<and>
   (\<exists>m \<in> set (mods d). equalCaseInsensitive (name m) (fileName file)) \<and>
   (\<forall>m \<in> set (mods d). equalCaseInsensitive (name m) (fileName file) \<longrightarrow> matched m) \<longrightarrow>
   HashTaskAdded file \<in> set (newEffects d (scanPath fs path d))"
proof -
  have "newEffects d (scanPath fs path d) =
     map HashTaskAdded (filter (nameIsRelevant (mods d)) (dirFiles fs path)) @ [HashingStarted]"
    by (rule newEffects_append) (simp add: effects_scanPath)
  then show ?thesis
    by (auto simp: nameIsRelevant_def)
qed

theorem scanPath_ignores_matched_witness:
  "HashTaskAdded ''/dl/Foo.jar'' \<in>
     set (newEffects (dialogOf [dupA, fooFound]) (scanPath downloads ''/dl'' (dialogOf [dupA, fooFound])))"
proof -
  have "''/dl/Foo.jar'' \<in> set (dirFiles downloads ''/dl'') \<and>
   (\<exists>m \<in> set (mods (dialogOf [dupA, fooFound])). equalCaseInsensitive (name m) (fileName ''/dl/Foo.jar'')) \<and>
   (\<forall>m \<in> set (mods (dialogOf [dupA, fooFound])). equalCaseInsensitive (name m) (fileName ''/dl/Foo.jar'') \<longrightarrow> matched m)"
    by (simp add: ex_defs fs_defs fileName_def)
  then show ?thesis
    using scanPath_ignores_matched [of "''/dl/Foo.jar''" downloads "''/dl''" "dialogOf [dupA, fooFound]"]
    by blast
qed

text \<open>
  C5. \<^verbatim>\<open>directoryChanged\<close> is \<^verbatim>\<open>validateMatchedMods\<close> followed by \<^verbatim>\<open>scanPath\<close> of
  the directory: the entries afterwards are the revalidated ones, and what it records is
  first the update of the revalidation (when an entry was reset), then the hash tasks of
  the scan, chosen on the revalidated entries, then the start of the hashing.
\<close>

theorem directoryChanged_revalidates_then_scans:
  "directoryChanged fs path d = scanPath fs path (validateMatchedMods fs d) \<and>
   mods (directoryChanged fs path d) = map (\<lambda>m. if stale fs m then unmatch m else m) (mods d) \<and>
   effects (directoryChanged fs path d) =
     effects d
     @ (if \<exists>m \<in> set (mods d). stale fs m then [Updated (mods (validateMatchedMods fs d))] else [])
     @ map HashTaskAdded (filter (nameIsRelevant (mods (validateMatchedMods fs d))) (dirFiles fs path))
     @ [HashingStarted]"
  by (simp add: directoryChanged_def mods_scanPath effects_scanPath mods_validateMatchedMods
      effects_validateMatchedMods)

theorem directoryChanged_revalidates_then_scans_witness:
  "mods (directoryChanged downloadsAfterDelete ''/dl'' (dialogOf [fooFound, notesTxt])) =
     [fooJar, notesTxt] \<and>
   effects (directoryChanged downloadsAfterDelete ''/dl'' (dialogOf [fooFound, notesTxt])) =
     [Updated [fooJar, notesTxt], HashTaskAdded ''/dl/notes.txt'', HashingStarted]"
proof -
  have "stale downloadsAfterDelete fooFound \<and> \<not> stale downloadsAfterDelete notesTxt \<and> unmatch fooFound = fooJar"
    by (simp add: ex_defs fs_defs)
  moreover have "nameIsRelevant [fooJar, notesTxt] ''/dl/notes.txt''"
    by (simp add: nameIsRelevant_def ex_defs fileName_def)
  moreover have "mods (validateMatchedMods downloadsAfterDelete (dialogOf [fooFound, notesTxt])) = [fooJar, notesTxt]"
    using calculation by (simp add: mods_validateMatchedMods dialogOf_def)
  ultimately show ?thesis
    using directoryChanged_revalidates_then_scans
      [of downloadsAfterDelete "''/dl''" "dialogOf [fooFound, notesTxt]", THEN conjunct2]
    by (simp add: dialogOf_def downloadsAfterDelete_def listing_def)
qed

text \<open>
  C6. \<^verbatim>\<open>dropEvent\<close> adds a hash task for every dropped file, in the order given, whatever
  the entries are, and then starts the hashing; the entries are not touched. No name is
  checked and no directory is enumerated.
\<close>

theorem dropEvent_hashes_every_file:
  "effects (dropEvent files d) = effects d @ map HashTaskAdded files @ [HashingStarted] \<and>
   hashTasks (newEffects d (dropEvent files d)) = files \<and>
   mods (dropEvent files d) = mods d"
proof -
  have e: "effects (dropEvent files d) = effects d @ map HashTaskAdded files @ [HashingStarted]"
    by (simp add: dropEvent_def startHashing_def effects_dropEvent_loop)
  then have "newEffects d (dropEvent files d) = map HashTaskAdded files @ [HashingStarted]"
    by (rule newEffects_append)
  then have "hashTasks (newEffects d (dropEvent files d)) = files"
    by (simp add: hashTasks_append hashTasks_map_HashTaskAdded)
  moreover have "mods (dropEvent files d) = mods d"
    by (simp add: dropEvent_def startHashing_def mods_dropEvent_loop)
  ultimately show ?thesis using e by simp
qed

theorem dropEvent_hashes_every_file_witness:
  "\<not> checkValidPath ''/tmp/other.bin'' (dialogOf [fooJar]) \<and>
   effects (dropEvent [''/tmp/other.bin'', ''/dl/Foo.jar''] (dialogOf [fooJar])) =
     [HashTaskAdded ''/tmp/other.bin'', HashTaskAdded ''/dl/Foo.jar'', HashingStarted]"
  using dropEvent_hashes_every_file [of "[''/tmp/other.bin'', ''/dl/Foo.jar'']" "dialogOf [fooJar]"]
  by (simp add: dialogOf_def checkValidPath_def fileName_def fooJar_def compare_def toCaseFolded_def)

text \<open>
  C8. An entry is matched exactly when its local path is not empty. \<^verbatim>\<open>checkMatchHash\<close>
  keeps this for all entries when the path it is given is not empty, and
  \<^verbatim>\<open>validateMatchedMods\<close> keeps it always; so, from a list whose entries are all unmatched
  with an empty local path, it holds after any sequence of the dialog's events in which
  every hash result comes with a non-empty path.
\<close>

theorem matched_iff_localPath_invariant:
  "((\<forall>m \<in> set (mods d). matchedIffLocalPath m) \<and> path \<noteq> '''' \<longrightarrow>
      (\<forall>m \<in> set (mods (checkMatchHash h path d)). matchedIffLocalPath m)) \<and>
   ((\<forall>m \<in> set (mods d). matchedIffLocalPath m) \<longrightarrow>
      (\<forall>m \<in> set (mods (validateMatchedMods fs d)). matchedIffLocalPath m)) \<and>
   ((\<forall>m \<in> set (mods d). \<not> matched m \<and> localPath m = '''') \<and>
    (\<forall>e \<in> set es. confirmsWithPath e) \<longrightarrow>
      (\<forall>m \<in> set (mods (handleAll es d)). matched m \<longleftrightarrow> localPath m \<noteq> ''''))"
proof (intro conjI impI)
  assume "(\<forall>m \<in> set (mods d). matchedIffLocalPath m) \<and> path \<noteq> ''''"
  then show "\<forall>m \<in> set (mods (checkMatchHash h path d)). matchedIffLocalPath m"
    using inv_checkMatchHash [of d path h] by simp
next
  assume "\<forall>m \<in> set (mods d). matchedIffLocalPath m"
  then show "\<forall>m \<in> set (mods (validateMatchedMods fs d)). matchedIffLocalPath m"
    by (rule inv_validateMatchedMods)
next
  assume a: "(\<forall>m \<in> set (mods d). \<not> matched m \<and> localPath m = '''') \<and>
    (\<forall>e \<in> set es. confirmsWithPath e)"
  then have "\<forall>m \<in> set (mods d). matchedIffLocalPath m"
    by (simp add: matchedIffLocalPath_def)
  with a have "\<forall>m \<in> set (mods (handleAll es d)). matchedIffLocalPath m"
    using inv_handleAll [of d es] by simp
  then show "\<forall>m \<in> set (mods (handleAll es d)). matched m \<longleftrightarrow> localPath m \<noteq> ''''"
    by (simp add: matchedIffLocalPath_def)
qed

theorem matched_iff_localPath_invariant_witness:
  "list_all matchedIffLocalPath
     (mods (checkMatchHash ''ABC123'' ''/dl/Foo.jar'' (dialogOf [fooJar, dupA]))) \<and>
   list_all matchedIffLocalPath
     (mods (validateMatchedMods downloadsAfterDelete (dialogOf [fooFound, dupA]))) \<and>
   list_all matchedIffLocalPath
     (mods (handleAll [HashSucceeded ''ABC123'' ''/dl/Foo.jar'',
                       DirectoryChanged downloadsAfterDelete ''/dl'',
                       HashSucceeded ''dup1'' ''/dl/x.jar''] (dialogOf [fooJar, dupA])))"
proof -
  let ?es = "[HashSucceeded ''ABC123'' ''/dl/Foo.jar'',
              DirectoryChanged downloadsAfterDelete ''/dl'',
              HashSucceeded ''dup1'' ''/dl/x.jar'']"
  note t = matched_iff_localPath_invariant [of "dialogOf [fooJar, dupA]" "''/dl/Foo.jar''"
      "''ABC123''" downloadsAfterDelete ?es]
  note u = matched_iff_localPath_invariant [of "dialogOf [fooFound, dupA]" "''/dl/Foo.jar''"
      "''ABC123''" downloadsAfterDelete ?es]
  have a: "(\<forall>m \<in> set (mods (dialogOf [fooJar, dupA])). matchedIffLocalPath m) \<and>
           ''/dl/Foo.jar'' \<noteq> ''''"
    by (simp add: ex_defs matchedIffLocalPath_def)
  have b: "\<forall>m \<in> set (mods (dialogOf [fooFound, dupA])). matchedIffLocalPath m"
    by (simp add: ex_defs matchedIffLocalPath_def)
  have c: "(\<forall>m \<in> set (mods (dialogOf [fooJar, dupA])). \<not> matched m \<and> localPath m = '''') \<and>
           (\<forall>e \<in> set ?es. confirmsWithPath e)"
    by (simp add: ex_defs)
  from t [THEN conjunct1, THEN mp, OF a]
  have 1: "list_all matchedIffLocalPath
     (mods (checkMatchHash ''ABC123'' ''/dl/Foo.jar'' (dialogOf [fooJar, dupA])))"
    by (simp only: list_all_iff)
  from u [THEN conjunct2, THEN conjunct1, THEN mp, OF b]
  have 2: "list_all matchedIffLocalPath
     (mods (validateMatchedMods downloadsAfterDelete (dialogOf [fooFound, dupA])))"
    by (simp only: list_all_iff)
  from t [THEN conjunct2, THEN conjunct2, THEN mp, OF c]
  have 3: "list_all matchedIffLocalPath (mods (handleAll ?es (dialogOf [fooJar, dupA])))"
    by (simp add: list_all_iff matchedIffLocalPath_def)
  from 1 2 3 show ?thesis by (intro conjI)
qed

text \<open>
  C9. The hashing task of the dialog is created with the bound 10 and never runs more than
  10 tasks at a time, whatever calls and completions reach it, in whatever order. Every
  task it has accepted is waiting, running or completed, and after \<^verbatim>\<open>start\<close> a task
  waits only while all 10 slots are taken. Once started, when the running tasks
  complete one after the other, in any order, no task is left waiting or running after as
  many completions as there were tasks waiting or running, and the completed tasks are
  the accepted ones.
\<close>

theorem hashing_task_bounded:
  "length (doing (poolRun es hashing_task)) \<le> 10 \<and>
   tasksOf (poolRun es hashing_task) = mset (accepted es) \<and>
   (queue (start (poolRun es hashing_task)) = [] \<or>
    length (doing (start (poolRun es hashing_task))) = 10) \<and>
   queue (drain pick (length (queue (poolRun es hashing_task)) + length (doing (poolRun es hashing_task)))
            (start (poolRun es hashing_task))) = [] \<and>
   doing (drain pick (length (queue (poolRun es hashing_task)) + length (doing (poolRun es hashing_task)))
            (start (poolRun es hashing_task))) = [] \<and>
   mset (finished (drain pick (length (queue (poolRun es hashing_task)) + length (doing (poolRun es hashing_task)))
            (start (poolRun es hashing_task)))) = mset (accepted es)"
proof -
  let ?p = "poolRun es hashing_task"
  have m: "maxConcurrent ?p = 10"
    by (simp add: hashing_task_def newConcurrentTask_def)
  have "length (doing hashing_task) \<le> maxConcurrent hashing_task"
    by (simp add: hashing_task_def newConcurrentTask_def)
  then have b: "length (doing ?p) \<le> maxConcurrent hashing_task"
    by (rule bound_poolRun)
  then have 1: "length (doing ?p) \<le> 10"
    by (simp add: hashing_task_def newConcurrentTask_def)
  have 2: "tasksOf ?p = mset (accepted es)"
    by (simp add: tasksOf_poolRun) (simp add: tasksOf_def hashing_task_def newConcurrentTask_def)
  from 1 m have "length (doing (start ?p)) \<le> 10"
    using bound_start [of ?p] by simp
  with filled_start [of ?p] m have 3: "queue (start ?p) = [] \<or> length (doing (start ?p)) = 10"
    by (auto simp: filled_def)
  have "queue (drain pick (length (queue ?p) + length (doing ?p)) (start ?p)) = [] \<and>
        doing (drain pick (length (queue ?p) + length (doing ?p)) (start ?p)) = [] \<and>
        mset (finished (drain pick (length (queue ?p) + length (doing ?p)) (start ?p))) = tasksOf (start ?p)"
  proof (rule drain_all)
    show "filled (start ?p)" by (rule filled_start)
    show "0 < maxConcurrent (start ?p)" using m by simp
    show "length (queue (start ?p)) + length (doing (start ?p)) \<le> length (queue ?p) + length (doing ?p)"
      by (simp add: load_start)
  qed
  with 1 2 3 show ?thesis by (simp add: tasksOf_start)
qed

theorem hashing_task_bounded_witness:
  "length (doing (poolRun (hashingCalls (effects (dropEvent twelveFiles (dialogOf [])))) hashing_task)) \<le> 10 \<and>
   tasksOf (poolRun (hashingCalls (effects (dropEvent twelveFiles (dialogOf [])))) hashing_task) =
     mset twelveFiles \<and>
   doing (drain firstRunning
     (length (queue (poolRun (hashingCalls (effects (dropEvent twelveFiles (dialogOf [])))) hashing_task)) +
      length (doing (poolRun (hashingCalls (effects (dropEvent twelveFiles (dialogOf [])))) hashing_task)))
     (start (poolRun (hashingCalls (effects (dropEvent twelveFiles (dialogOf [])))) hashing_task))) = [] \<and>
   mset (finished (drain firstRunning
     (length (queue (poolRun (hashingCalls (effects (dropEvent twelveFiles (dialogOf [])))) hashing_task)) +
      length (doing (poolRun (hashingCalls (effects (dropEvent twelveFiles (dialogOf [])))) hashing_task)))
     (start (poolRun (hashingCalls (effects (dropEvent twelveFiles (dialogOf [])))) hashing_task)))) =
     mset twelveFiles"
proof -
  have "effects (dropEvent twelveFiles (dialogOf [])) = map HashTaskAdded twelveFiles @ [HashingStarted]"
    by (simp add: dropEvent_def startHashing_def effects_dropEvent_loop dialogOf_def)
  then have "accepted (hashingCalls (effects (dropEvent twelveFiles (dialogOf [])))) = twelveFiles"
    by (simp add: twelveFiles_def)
  then show ?thesis
    using hashing_task_bounded [of "hashingCalls (effects (dropEvent twelveFiles (dialogOf [])))" firstRunning]
    by simp
qed

text \<open>
  C10. \<^verbatim>\<open>checkMatchHash\<close> keeps the length of the list and writes at most one position:
  the entry at a position stays as it is unless the position is the first one that holds
  an unmatched entry with the hash (up to case), and there is at most one such position.
  When no unmatched entry has the hash, the dialog is left as it is (the list, and no
  update recorded); when one has, \<^verbatim>\<open>update()\<close> is called once on the new list.
\<close>

theorem checkMatchHash_frame:
  "length (mods (checkMatchHash h path d)) = length (mods d) \<and>
   (\<forall>i < length (mods d).
      mods (checkMatchHash h path d) ! i =
        (if firstCandidate h (mods d) i then confirmed path (mods d ! i) else mods d ! i)) \<and>
   (\<forall>i j. firstCandidate h (mods d) i \<and> firstCandidate h (mods d) j \<longrightarrow> i = j) \<and>
   ((\<forall>m \<in> set (mods d). \<not> candidate h m) \<longrightarrow> checkMatchHash h path d = d) \<and>
   ((\<exists>m \<in> set (mods d). candidate h m) \<longrightarrow>
      effects (checkMatchHash h path d) = effects d @ [Updated (mods (checkMatchHash h path d))])"
proof (intro conjI)
  show "length (mods (checkMatchHash h path d)) = length (mods d)"
    by (simp add: mods_checkMatchHash length_checkMatchHash_loop)
next
  show "\<forall>i < length (mods d). mods (checkMatchHash h path d) ! i =
        (if firstCandidate h (mods d) i then confirmed path (mods d ! i) else mods d ! i)"
    by (simp add: mods_checkMatchHash nth_checkMatchHash_loop)
next
  show "\<forall>i j. firstCandidate h (mods d) i \<and> firstCandidate h (mods d) j \<longrightarrow> i = j"
    by (blast intro: firstCandidate_unique)
next
  show "(\<forall>m \<in> set (mods d). \<not> candidate h m) \<longrightarrow> checkMatchHash h path d = d"
  proof
    assume "\<forall>m \<in> set (mods d). \<not> candidate h m"
    then have "checkMatchHash_loop h path (mods d) = (mods d, False)"
      by (rule loop_no_candidate)
    then show "checkMatchHash h path d = d"
      by (simp add: checkMatchHash_def)
  qed
next
  show "(\<exists>m \<in> set (mods d). candidate h m) \<longrightarrow>
      effects (checkMatchHash h path d) = effects d @ [Updated (mods (checkMatchHash h path d))]"
  proof
    assume "\<exists>m \<in> set (mods d). candidate h m"
    then have "snd (checkMatchHash_loop h path (mods d))"
      by (simp add: snd_checkMatchHash_loop)
    then obtain ms' where "checkMatchHash_loop h path (mods d) = (ms', True)"
      by (cases "checkMatchHash_loop h path (mods d)") simp
    then show "effects (checkMatchHash h path d) = effects d @ [Updated (mods (checkMatchHash h path d))]"
      by (simp add: checkMatchHash_def update_def)
  qed
qed

theorem checkMatchHash_frame_witness:
  "mods (checkMatchHash ''Dup1'' ''/dl/x.jar'' (dialogOf [fooFound, dupA, dupB])) ! 0 = fooFound \<and>
   mods (checkMatchHash ''Dup1'' ''/dl/x.jar'' (dialogOf [fooFound, dupA, dupB])) ! 1 =
     dupA\<lparr>matched := True, localPath := ''/dl/x.jar''\<rparr> \<and>
   mods (checkMatchHash ''Dup1'' ''/dl/x.jar'' (dialogOf [fooFound, dupA, dupB])) ! 2 = dupB \<and>
   length (mods (checkMatchHash ''Dup1'' ''/dl/x.jar'' (dialogOf [fooFound, dupA, dupB]))) = 3 \<and>
   checkMatchHash ''zzz999'' ''/dl/x.jar'' (dialogOf [fooFound, dupA, dupB]) = dialogOf [fooFound, dupA, dupB]"
proof -
  have f: "\<not> firstCandidate ''Dup1'' [fooFound, dupA, dupB] 0 \<and> firstCandidate ''Dup1'' [fooFound, dupA, dupB] 1
    \<and> \<not> firstCandidate ''Dup1'' [fooFound, dupA, dupB] 2"
    by (simp add: firstCandidate_Cons ex_defs)
  have n: "\<forall>m \<in> set (mods (dialogOf [fooFound, dupA, dupB])). \<not> candidate ''zzz999'' m"
    by (simp add: ex_defs)
  have l: "(0::nat) < length [fooFound, dupA, dupB] \<and> (1::nat) < length [fooFound, dupA, dupB] \<and>
    (2::nat) < length [fooFound, dupA, dupB]"
    by simp
  note t = checkMatchHash_frame [of "''Dup1''" "''/dl/x.jar''" "dialogOf [fooFound, dupA, dupB]"]
  note u = checkMatchHash_frame [of "''zzz999''" "''/dl/x.jar''" "dialogOf [fooFound, dupA, dupB]"]
  from t f l have "mods (checkMatchHash ''Dup1'' ''/dl/x.jar'' (dialogOf [fooFound, dupA, dupB])) ! 0 = fooFound"
    by (simp add: dialogOf_def)
  moreover from t f l have "mods (checkMatchHash ''Dup1'' ''/dl/x.jar'' (dialogOf [fooFound, dupA, dupB])) ! 1 =
     dupA\<lparr>matched := True, localPath := ''/dl/x.jar''\<rparr>"
    by (simp add: dialogOf_def confirmed_def)
  moreover from t f l have "mods (checkMatchHash ''Dup1'' ''/dl/x.jar'' (dialogOf [fooFound, dupA, dupB])) ! 2 = dupB"
    by (simp add: dialogOf_def)
  moreover from t have "length (mods (checkMatchHash ''Dup1'' ''/dl/x.jar'' (dialogOf [fooFound, dupA, dupB]))) = 3"
    by (simp add: dialogOf_def)
  moreover from u n have "checkMatchHash ''zzz999'' ''/dl/x.jar'' (dialogOf [fooFound, dupA, dupB]) = dialogOf [fooFound, dupA, dupB]"
    by blast
  ultimately show ?thesis by blast
qed

end
